theory Spec2Isabelle
  imports Complex_Main "HOL-Library.Sublist"
begin

section \<open>The typing effect hook (\<open>useTypingEffect\<close>, App.tsx lines 54 to 80)\<close>

text \<open>
  A JavaScript string is a sequence of UTF-16 code units; the hook only compares strings,
  takes their length and slices them, so the code unit type is left as a parameter
  \<open>'c\<close>. Delays are whole milliseconds.
\<close>

datatype error = TypeError

text \<open>
  \<open>phraseIndex\<close> is a JavaScript number. It starts at \<open>0\<close> and is only ever
  replaced by \<open>(prev + 1) % phrases.length\<close>, which is a natural number, or
  \<open>NaN\<close> when the list is empty.
\<close>

datatype number = Num nat | NaN

record 'c typing_state =
  displayText :: "'c list"
  phraseIndex :: number
  isDeleting :: bool

record timing =
  typingSpeed :: nat
  deletingSpeed :: nat
  pauseDuration :: nat

definition default_timing :: timing where
  "default_timing = \<lparr>typingSpeed = 80, deletingSpeed = 50, pauseDuration = 1800\<rparr>"

definition initial_state :: "'c typing_state" where
  "initial_state = \<lparr>displayText = [], phraseIndex = Num 0, isDeleting = False\<rparr>"

text \<open>\<open>phrases[phraseIndex]\<close>: \<open>undefined\<close> (here \<open>None\<close>) outside the array.\<close>

fun phrase_at :: "'c list list \<Rightarrow> number \<Rightarrow> 'c list option" where
  "phrase_at phrases (Num i) = (if i < length phrases then Some (phrases ! i) else None)"
| "phrase_at phrases NaN = None"

text \<open>\<open>(prev + 1) % phrases.length\<close>; the remainder by zero is \<open>NaN\<close>.\<close>

fun next_index :: "'c list list \<Rightarrow> number \<Rightarrow> number" where
  "next_index phrases (Num prev) =
     (if length phrases = 0 then NaN else Num ((prev + 1) mod length phrases))"
| "next_index phrases NaN = NaN"

text \<open>
  \<open>s.slice(0, e)\<close> for an integer \<open>e\<close>: a negative end counts from the end of the
  string, and an end beyond the string stops at its length.
\<close>

definition slice0 :: "'c list \<Rightarrow> int \<Rightarrow> 'c list" where
  "slice0 s e = (if e < 0 then take (nat (int (length s) + e)) s else take (nat e) s)"

text \<open>
  The two closures handed to \<open>setTimeout\<close>. The second one captures
  \<open>currentPhrase\<close> (possibly \<open>undefined\<close>) and the end of the slice computed from
  the captured \<open>displayText\<close> and \<open>isDeleting\<close>.
\<close>

datatype 'c callback =
    SetIsDeleting bool
  | SetDisplayTextSlice "'c list option" int

fun fire :: "'c callback \<Rightarrow> 'c typing_state \<Rightarrow> error + 'c typing_state" where
  "fire (SetIsDeleting b) st = Inr (st\<lparr>isDeleting := b\<rparr>)"
| "fire (SetDisplayTextSlice None e) st = Inl TypeError"
| "fire (SetDisplayTextSlice (Some currentPhrase) e) st =
     Inr (st\<lparr>displayText := slice0 currentPhrase e\<rparr>)"

text \<open>
  One run of the effect body: \<open>timer\<close> is the variable \<open>timeout\<close> after the body
  (unassigned, or the one timer with its delay and closure), \<open>synced\<close> is the state
  after the state setters the body calls directly.
\<close>

record 'c effect_result =
  timer :: "(nat \<times> 'c callback) option"
  synced :: "'c typing_state"

definition useTypingEffect_effect ::
  "timing \<Rightarrow> 'c list list \<Rightarrow> 'c typing_state \<Rightarrow> 'c effect_result" where
  "useTypingEffect_effect cfg phrases st =
     (let currentPhrase = phrase_at phrases (phraseIndex st) in
      if \<not> isDeleting st \<and> Some (displayText st) = currentPhrase then
        \<lparr>timer = Some (pauseDuration cfg, SetIsDeleting True), synced = st\<rparr>
      else if isDeleting st \<and> displayText st = [] then
        \<lparr>timer = None,
         synced = st\<lparr>isDeleting := False,
                      phraseIndex := next_index phrases (phraseIndex st)\<rparr>\<rparr>
      else
        \<lparr>timer = Some (if isDeleting st then deletingSpeed cfg else typingSpeed cfg,
           SetDisplayTextSlice currentPhrase
             (if isDeleting st then int (length (displayText st)) - 1
              else int (length (displayText st)) + 1)),
         synced = st\<rparr>)"

text \<open>
  One transition of the engine, from one run of the effect to the next: the time that
  passes and the state the next run sees, or the fault raised in the timer's closure.
\<close>

definition step ::
  "timing \<Rightarrow> 'c list list \<Rightarrow> 'c typing_state \<Rightarrow> error + (nat \<times> 'c typing_state)" where
  "step cfg phrases st =
     (let r = useTypingEffect_effect cfg phrases st in
      case timer r of
        None \<Rightarrow> Inr (0, synced r)
      | Some (delay, cb) \<Rightarrow>
          (case fire cb (synced r) of
             Inl e \<Rightarrow> Inl e
           | Inr st' \<Rightarrow> Inr (delay, st')))"

inductive reachable :: "timing \<Rightarrow> 'c list list \<Rightarrow> 'c typing_state \<Rightarrow> bool"
  for cfg :: timing and phrases :: "'c list list" where
  reachable_initial: "reachable cfg phrases initial_state"
| reachable_step:
    "reachable cfg phrases st \<Longrightarrow> step cfg phrases st = Inr (d, st') \<Longrightarrow>
     reachable cfg phrases st'"

text \<open>The invariant of the data model: the display is a prefix of the active phrase.\<close>

definition typing_inv :: "'c list list \<Rightarrow> 'c typing_state \<Rightarrow> bool" where
  "typing_inv phrases st =
     (case phrase_at phrases (phraseIndex st) of
        None \<Rightarrow> False
      | Some p \<Rightarrow> prefix (displayText st) p \<and> length (displayText st) \<le> length p)"

text \<open>The timing of the specification's scenario.\<close>

definition scenario_timing :: timing where
  "scenario_timing = \<lparr>typingSpeed = 10, deletingSpeed = 5, pauseDuration = 100\<rparr>"

text \<open>
  Sampling the engine on an ideal clock: the effect runs at time \<open>now\<close> on state
  \<open>st\<close>, timers fire exactly when due, and a state change is followed at once by the
  next run of the effect. The result is the state at time \<open>deadline\<close>, a timer due
  at that instant having fired. \<open>None\<close> means that the given number of transitions
  did not reach the deadline.
\<close>

fun sample ::
  "timing \<Rightarrow> 'c list list \<Rightarrow> nat \<Rightarrow> nat \<Rightarrow> nat \<Rightarrow> 'c typing_state \<Rightarrow>
   (error + 'c typing_state) option" where
  "sample cfg phrases 0 deadline now st = None"
| "sample cfg phrases (Suc fuel) deadline now st =
     (let r = useTypingEffect_effect cfg phrases st in
      case timer r of
        None \<Rightarrow> sample cfg phrases fuel deadline now (synced r)
      | Some (delay, cb) \<Rightarrow>
          if deadline < now + delay then Some (Inr (synced r))
          else (case fire cb (synced r) of
                  Inl e \<Rightarrow> Some (Inl e)
                | Inr st' \<Rightarrow> sample cfg phrases fuel deadline (now + delay) st'))"

text \<open>
  One full cycle: transitions up to and including the one taken when the display is
  empty while deleting (the advance to the next phrase).
\<close>

definition cycle_measure :: "'c list list \<Rightarrow> 'c typing_state \<Rightarrow> nat" where
  "cycle_measure phrases st =
     (case phrase_at phrases (phraseIndex st) of
        None \<Rightarrow> 0
      | Some p \<Rightarrow>
          if isDeleting st then length (displayText st)
          else if displayText st = p then length p + 1
          else 2 * length p + 2 - min (length (displayText st)) (length p))"

lemma step_cases:
  assumes "phrase_at phrases (phraseIndex st) = Some p"
  shows "step cfg phrases st =
    (if \<not> isDeleting st \<and> displayText st = p then Inr (pauseDuration cfg, st\<lparr>isDeleting := True\<rparr>)
     else if isDeleting st \<and> displayText st = [] then
       Inr (0, st\<lparr>isDeleting := False, phraseIndex := next_index phrases (phraseIndex st)\<rparr>)
     else if isDeleting st then
       Inr (deletingSpeed cfg, st\<lparr>displayText := take (length (displayText st) - 1) p\<rparr>)
     else Inr (typingSpeed cfg, st\<lparr>displayText := take (length (displayText st) + 1) p\<rparr>))"
proof -
  have a: "nat (int (length (displayText st)) - 1) = length (displayText st) - 1" by simp
  have b: "nat (int (length (displayText st)) + 1) = length (displayText st) + 1" by simp
  have c: "displayText st \<noteq> [] \<Longrightarrow> \<not> int (length (displayText st)) - 1 < 0" by (cases "displayText st") auto
  show ?thesis using assms c
    by (auto simp: step_def useTypingEffect_effect_def Let_def slice0_def a b simp del: One_nat_def)
qed

lemma cycle_measure_decreases:
  assumes "step cfg phrases st = Inr (d, st')"
    and "\<not> (isDeleting st \<and> displayText st = [])"
  shows "cycle_measure phrases st' < cycle_measure phrases st"
proof (cases "phrase_at phrases (phraseIndex st)")
  case None
  with assms show ?thesis
    by (auto simp: step_def useTypingEffect_effect_def Let_def split: if_splits)
next
  case (Some p)
  show ?thesis
  proof (cases "isDeleting st")
    case True
    with assms Some have "st' = st\<lparr>displayText := take (length (displayText st) - 1) p\<rparr>"
      by (auto simp: step_cases [OF Some] split: if_splits)
    moreover from assms True have "displayText st \<noteq> []" by simp
    ultimately show ?thesis using Some True
      by (cases "displayText st") (auto simp: cycle_measure_def)
  next
    case False
    show ?thesis
    proof (cases "displayText st = p")
      case True
      with assms Some False have "st' = st\<lparr>isDeleting := True\<rparr>"
        by (auto simp: step_cases [OF Some] split: if_splits)
      then show ?thesis using Some False True by (simp add: cycle_measure_def)
    next
      case neq: False
      with assms Some False
      have st': "st' = st\<lparr>displayText := take (length (displayText st) + 1) p\<rparr>"
        by (auto simp: step_cases [OF Some] split: if_splits)
      show ?thesis
      proof (cases "length (displayText st) < length p")
        case True
        then show ?thesis using Some False neq st'
          by (auto simp: cycle_measure_def min_def)
      next
        case False
        then have "take (length (displayText st) + 1) p = p" by simp
        then show ?thesis using Some \<open>\<not> isDeleting st\<close> neq st' False
          by (auto simp: cycle_measure_def min_def)
      qed
    qed
  qed
qed

function cycle :: "timing \<Rightarrow> 'c list list \<Rightarrow> 'c typing_state \<Rightarrow> error + 'c typing_state" where
  "cycle cfg phrases st =
     (case step cfg phrases st of
        Inl e \<Rightarrow> Inl e
      | Inr (d, st') \<Rightarrow>
          if isDeleting st \<and> displayText st = [] then Inr st'
          else cycle cfg phrases st')"
  by pat_completeness auto
termination
  by (relation "measure (\<lambda>(cfg, phrases, st). cycle_measure phrases st)")
    (auto simp: cycle_measure_decreases)

fun cycles ::
  "timing \<Rightarrow> 'c list list \<Rightarrow> nat \<Rightarrow> 'c typing_state \<Rightarrow> error + 'c typing_state" where
  "cycles cfg phrases 0 st = Inr st"
| "cycles cfg phrases (Suc n) st =
     (case cycle cfg phrases st of
        Inl e \<Rightarrow> Inl e
      | Inr st' \<Rightarrow> cycles cfg phrases n st')"

declare cycle.simps [simp del]

section \<open>The visibility tracker (\<open>useScrollAnimation\<close>, App.tsx lines 32 to 51)\<close>

text \<open>
  The hook owns the flag \<open>isVisible\<close> and one \<open>IntersectionObserver\<close>, created with
  the option \<open>threshold\<close> (0.15 unless the caller gives another). The browser decides
  from that threshold when to notify and what \<open>isIntersecting\<close> an entry carries; the
  hook only reads the flag of the first entry of a notification. \<open>observing\<close> tells
  whether the observer still watches the element: a disconnected observer is not notified.
\<close>

record entry =
  isIntersecting :: bool

record scroll_animation =
  isVisible :: bool
  observing :: bool

text \<open>
  The state after the first render and its effect: \<open>attached\<close> is whether
  \<open>ref.current\<close> is set when the effect runs.
\<close>

definition useScrollAnimation_mount :: "bool \<Rightarrow> scroll_animation" where
  "useScrollAnimation_mount attached = \<lparr>isVisible = False, observing = attached\<rparr>"

text \<open>The observer's callback \<open>([entry]) => ...\<close>, which destructures the first entry.\<close>

fun observer_callback :: "entry list \<Rightarrow> scroll_animation \<Rightarrow> error + scroll_animation" where
  "observer_callback [] st = Inl TypeError"
| "observer_callback (entry # rest) st =
     (if isIntersecting entry then Inr (st\<lparr>isVisible := True, observing := False\<rparr>)
      else Inr st)"

definition notify :: "entry list \<Rightarrow> scroll_animation \<Rightarrow> error + scroll_animation" where
  "notify entries st = (if observing st then observer_callback entries st else Inr st)"

fun notify_all :: "entry list list \<Rightarrow> scroll_animation \<Rightarrow> error + scroll_animation" where
  "notify_all [] st = Inr st"
| "notify_all (entries # rest) st =
     (case notify entries st of
        Inl e \<Rightarrow> Inl e
      | Inr st' \<Rightarrow> notify_all rest st')"

text \<open>The cleanup of the effect, run when the component is torn down.\<close>

definition useScrollAnimation_cleanup :: "scroll_animation \<Rightarrow> scroll_animation" where
  "useScrollAnimation_cleanup st = st\<lparr>observing := False\<rparr>"

section \<open>The progress indicators (\<open>AnimatedProgressBar\<close>, lines 83 to 92, and
  \<open>LanguageCircle\<close>, lines 938 to 941)\<close>

text \<open>
  \<open>width\<close> is the bar's state, \<open>pending\<close> the timer of the last effect run (the
  milliseconds left and the value its closure will set), \<open>deps\<close> the dependency array
  \<open>[isVisible, value]\<close> of that run.
\<close>

record progress_bar =
  width :: int
  pending :: "(nat \<times> int) option"
  deps :: "bool \<times> int"

definition AnimatedProgressBar_effect :: "bool \<Rightarrow> int \<Rightarrow> (nat \<times> int) option" where
  "AnimatedProgressBar_effect visible v = (if visible then Some (200, v) else None)"

text \<open>The first render happens before the observer has reported anything.\<close>

definition AnimatedProgressBar_mount :: "int \<Rightarrow> progress_bar" where
  "AnimatedProgressBar_mount v =
     \<lparr>width = 0, pending = AnimatedProgressBar_effect False v, deps = (False, v)\<rparr>"

text \<open>
  A later render: the effect runs again only when a dependency has changed, after the
  cleanup of the previous run, which clears its timer.
\<close>

definition AnimatedProgressBar_render :: "bool \<Rightarrow> int \<Rightarrow> progress_bar \<Rightarrow> progress_bar" where
  "AnimatedProgressBar_render visible v st =
     (if deps st = (visible, v) then st
      else st\<lparr>pending := AnimatedProgressBar_effect visible v, deps := (visible, v)\<rparr>)"

text \<open>Time passing: a timer that comes due runs \<open>setWidth(value)\<close>.\<close>

definition elapse :: "nat \<Rightarrow> progress_bar \<Rightarrow> progress_bar" where
  "elapse dt st =
     (case pending st of
        None \<Rightarrow> st
      | Some (remaining, v) \<Rightarrow>
          if remaining \<le> dt then st\<lparr>width := v, pending := None\<rparr>
          else st\<lparr>pending := Some (remaining - dt, v)\<rparr>)"

text \<open>The targets passed to the bars (lines 568 to 572) and the rings (lines 932 to 936).\<close>

definition bar_targets :: "int list" where
  "bar_targets = [85, 90, 92, 75, 78]"

definition languagesData_values :: "int list" where
  "languagesData_values = [100, 90, 50]"

text \<open>
  The ring keeps no state and sets no timer: its stroke offset is computed on every render
  from the visibility signal and the target. The arithmetic here is over the reals, where
  the code computes in double precision; what is stated about it below is stated only
  where rounding cannot change it (a number minus itself, and the page's own targets and
  the target 150, which are far from a boundary).
\<close>

definition circumference :: real where
  "circumference = 2 * pi * 45"

definition strokeDashoffset :: "bool \<Rightarrow> real \<Rightarrow> real" where
  "strokeDashoffset visible v =
     circumference - (if visible then (v / 100) * circumference else circumference)"

section \<open>The navigation controller (\<open>Navbar\<close>, App.tsx lines 163 to 196)\<close>

definition NAV_LINKS :: "(string \<times> string) list" where
  "NAV_LINKS =
     [(''home'', ''Home''), (''about'', ''About''), (''skills'', ''Skills''),
      (''education'', ''Education''), (''experience'', ''Experience''),
      (''services'', ''Services''), (''projects'', ''Projects''),
      (''volunteer'', ''Volunteer''), (''languages'', ''Languages''),
      (''contact'', ''Contact'')]"

definition sectionIds :: "string list" where
  "sectionIds = map fst NAV_LINKS"

text \<open>
  The page as the handler sees it: \<open>document.getElementById(id)\<close> is \<open>null\<close>
  (here \<open>None\<close>) or an element, of which only \<open>offsetTop\<close> is read. Offsets are
  whole pixels.
\<close>

type_synonym document = "string \<Rightarrow> int option"

record navbar =
  scrolled :: bool
  mobileOpen :: bool
  activeSection :: string

text \<open>
  The state after the first render and its effect. The effect registers
  \<open>handleScroll\<close> as a listener and does not call it, whatever the page and the scroll
  offset are.
\<close>

definition Navbar_mount :: "document \<Rightarrow> int \<Rightarrow> navbar" where
  "Navbar_mount doc scrollY = \<lparr>scrolled = False, mobileOpen = False, activeSection = ''home''\<rparr>"

text \<open>
  The loop \<open>for (let i = ids.length - 1; i >= 0; i--)\<close> with its \<open>break\<close>: the
  last argument is one more than the loop variable, so that \<open>0\<close> is the exit.
\<close>

fun find_section :: "document \<Rightarrow> string list \<Rightarrow> int \<Rightarrow> nat \<Rightarrow> string option" where
  "find_section doc ids scrollPos 0 = None"
| "find_section doc ids scrollPos (Suc i) =
     (case doc (ids ! i) of
        None \<Rightarrow> find_section doc ids scrollPos i
      | Some offsetTop \<Rightarrow>
          if offsetTop \<le> scrollPos then Some (ids ! i)
          else find_section doc ids scrollPos i)"

definition handleScroll :: "string list \<Rightarrow> document \<Rightarrow> int \<Rightarrow> navbar \<Rightarrow> navbar" where
  "handleScroll ids doc scrollY st =
     (let st1 = st\<lparr>scrolled := 50 < scrollY\<rparr>;
          scrollPos = scrollY + 80
      in case find_section doc ids scrollPos (length ids) of
           None \<Rightarrow> st1
         | Some sid \<Rightarrow> st1\<lparr>activeSection := sid\<rparr>)"

text \<open>
  The rule in the specification's words: among the sections whose top offset is at most
  the position, the one latest in document order.
\<close>

definition passed :: "document \<Rightarrow> int \<Rightarrow> string \<Rightarrow> bool" where
  "passed doc scrollPos sid =
     (case doc sid of
        None \<Rightarrow> False
      | Some offsetTop \<Rightarrow> offsetTop \<le> scrollPos)"

definition latest_passed :: "document \<Rightarrow> string list \<Rightarrow> int \<Rightarrow> string option" where
  "latest_passed doc ids scrollPos =
     (case filter (passed doc scrollPos) ids of
        [] \<Rightarrow> None
      | x # xs \<Rightarrow> Some (last (x # xs)))"

definition example_page :: document where
  "example_page =
     [''home'' \<mapsto> 0, ''about'' \<mapsto> 800, ''skills'' \<mapsto> 1600, ''education'' \<mapsto> 2400]"

section \<open>Properties of the typing engine\<close>

lemma typing_inv_step:
  assumes "typing_inv phrases st"
  shows "\<exists>d st'. step cfg phrases st = Inr (d, st') \<and> typing_inv phrases st'"
proof -
  from assms obtain p where p: "phrase_at phrases (phraseIndex st) = Some p"
    and pre: "prefix (displayText st) p"
    by (auto simp: typing_inv_def split: option.splits)
  from p obtain i where i: "phraseIndex st = Num i" "i < length phrases"
    by (cases "phraseIndex st") (auto split: if_splits)
  then have "phrases \<noteq> []" by auto
  with i have nxt: "phrase_at phrases (next_index phrases (phraseIndex st)) =
      Some (phrases ! ((i + 1) mod length phrases))"
    by simp
  show ?thesis
    using p pre nxt
    by (auto simp: step_cases [OF p] typing_inv_def take_is_prefix)
qed

lemma typing_inv_initial: "phrases \<noteq> [] \<Longrightarrow> typing_inv phrases initial_state"
  by (simp add: typing_inv_def initial_state_def)

lemma reachable_inv:
  assumes "phrases \<noteq> []" and "reachable cfg phrases st"
  shows "typing_inv phrases st"
  using assms(2)
proof (induction rule: reachable.induct)
  case reachable_initial
  show ?case using assms(1) by (rule typing_inv_initial)
next
  case (reachable_step st d st')
  from typing_inv_step [OF reachable_step.IH, of cfg] reachable_step.hyps(2)
  show ?case by auto
qed

lemma typing_inv_explicit:
  "typing_inv phrases st \<longleftrightarrow>
     (\<exists>i. phraseIndex st = Num i \<and> i < length phrases \<and>
        prefix (displayText st) (phrases ! i) \<and>
        length (displayText st) \<le> length (phrases ! i))"
  by (cases "phraseIndex st") (auto simp: typing_inv_def prefix_length_le)

lemma cycle_typing_step:
  assumes "phrase_at phrases (Num i) = Some p" and "k < length p"
  shows "cycle cfg phrases \<lparr>displayText = take k p, phraseIndex = Num i, isDeleting = False\<rparr> =
         cycle cfg phrases \<lparr>displayText = take (Suc k) p, phraseIndex = Num i, isDeleting = False\<rparr>"
proof -
  let ?st = "\<lparr>displayText = take k p, phraseIndex = Num i, isDeleting = False\<rparr>"
  have p: "phrase_at phrases (phraseIndex ?st) = Some p" using assms(1) by simp
  have ne: "take k p \<noteq> p" using assms(2)
    by (metis length_take min.absorb2 less_imp_le_nat nat_neq_iff)
  have len: "length (take k p) = k" using assms(2) by simp
  show ?thesis
    using assms(2) by (subst cycle.simps) (simp add: step_cases [OF p])
qed

lemma cycle_typing:
  assumes "phrase_at phrases (Num i) = Some p"
  shows "k \<le> length p \<Longrightarrow>
    cycle cfg phrases \<lparr>displayText = take k p, phraseIndex = Num i, isDeleting = False\<rparr> =
    cycle cfg phrases \<lparr>displayText = p, phraseIndex = Num i, isDeleting = False\<rparr>"
proof (induction "length p - k" arbitrary: k)
  case 0
  then show ?case by simp
next
  case (Suc n)
  then have lt: "k < length p" and n: "n = length p - Suc k" by auto
  from Suc.hyps(1) [OF n] lt cycle_typing_step [OF assms lt]
  show ?case by simp
qed

lemma cycle_pause:
  assumes "phrase_at phrases (Num i) = Some p"
  shows "cycle cfg phrases \<lparr>displayText = p, phraseIndex = Num i, isDeleting = False\<rparr> =
         cycle cfg phrases \<lparr>displayText = p, phraseIndex = Num i, isDeleting = True\<rparr>"
proof -
  let ?st = "\<lparr>displayText = p, phraseIndex = Num i, isDeleting = False\<rparr>"
  have p: "phrase_at phrases (phraseIndex ?st) = Some p" using assms by simp
  show ?thesis
    by (subst cycle.simps) (simp add: step_cases [OF p])
qed

lemma cycle_deleting:
  assumes "phrase_at phrases (Num i) = Some p"
  shows "k \<le> length p \<Longrightarrow>
    cycle cfg phrases \<lparr>displayText = take k p, phraseIndex = Num i, isDeleting = True\<rparr> =
    Inr \<lparr>displayText = [], phraseIndex = next_index phrases (Num i), isDeleting = False\<rparr>"
proof (induction k)
  case 0
  let ?st = "\<lparr>displayText = [], phraseIndex = Num i, isDeleting = True\<rparr>"
  have p: "phrase_at phrases (phraseIndex ?st) = Some p" using assms by simp
  show ?case
    by (subst cycle.simps) (simp add: step_cases [OF p])
next
  case (Suc k)
  let ?st = "\<lparr>displayText = take (Suc k) p, phraseIndex = Num i, isDeleting = True\<rparr>"
  have p: "phrase_at phrases (phraseIndex ?st) = Some p" using assms by simp
  from Suc.prems have ne: "p \<noteq> []" by auto
  from Suc.prems have len: "min (length p) (Suc k) = Suc k" by simp
  have "cycle cfg phrases ?st =
        cycle cfg phrases \<lparr>displayText = take k p, phraseIndex = Num i, isDeleting = True\<rparr>"
    by (subst cycle.simps) (simp add: step_cases [OF p] ne len)
  with Suc show ?case by simp
qed

lemma cycle_full:
  assumes "i < length phrases"
  shows "cycle cfg phrases \<lparr>displayText = [], phraseIndex = Num i, isDeleting = False\<rparr> =
         Inr \<lparr>displayText = [], phraseIndex = Num ((i + 1) mod length phrases),
              isDeleting = False\<rparr>"
proof -
  define p where "p = phrases ! i"
  have p: "phrase_at phrases (Num i) = Some p" using assms by (simp add: p_def)
  have "cycle cfg phrases \<lparr>displayText = take 0 p, phraseIndex = Num i, isDeleting = False\<rparr> =
        cycle cfg phrases \<lparr>displayText = p, phraseIndex = Num i, isDeleting = False\<rparr>"
    by (rule cycle_typing [OF p]) simp
  also have "\<dots> = cycle cfg phrases
      \<lparr>displayText = take (length p) p, phraseIndex = Num i, isDeleting = True\<rparr>"
    using cycle_pause [OF p] by simp
  also have "\<dots> =
      Inr \<lparr>displayText = [], phraseIndex = next_index phrases (Num i), isDeleting = False\<rparr>"
    by (rule cycle_deleting [OF p]) simp
  finally show ?thesis using assms by auto
qed

lemma cycles_from:
  assumes "i < length phrases"
  shows "cycles cfg phrases n \<lparr>displayText = [], phraseIndex = Num i, isDeleting = False\<rparr> =
         Inr \<lparr>displayText = [], phraseIndex = Num ((i + n) mod length phrases),
              isDeleting = False\<rparr>"
  using assms
proof (induction n arbitrary: i)
  case 0
  then show ?case by simp
next
  case (Suc n)
  from Suc.prems have ne: "phrases \<noteq> []" by auto
  then have lt: "(i + 1) mod length phrases < length phrases" by simp
  have "((i + 1) mod length phrases + n) mod length phrases = (i + Suc n) mod length phrases"
    by (simp add: mod_add_left_eq)
  with Suc.IH [OF lt] cycle_full [OF Suc.prems, of cfg] ne show ?case by simp
qed

lemma step_keeps_index:
  assumes "step cfg phrases st = Inr (d, st')" and "\<not> (isDeleting st \<and> displayText st = [])"
  shows "phraseIndex st' = phraseIndex st"
  using assms
  by (cases "phrase_at phrases (phraseIndex st)")
    (auto simp: step_def useTypingEffect_effect_def Let_def split: if_splits)

lemma step_advance:
  assumes "isDeleting st" and "displayText st = []"
  shows "step cfg phrases st =
    Inr (0, st\<lparr>isDeleting := False, phraseIndex := next_index phrases (phraseIndex st)\<rparr>)"
  using assms by (simp add: step_def useTypingEffect_effect_def Let_def)

lemmas engine_defs = step_def useTypingEffect_effect_def initial_state_def Let_def slice0_def

lemma reach_A:
  "reachable scenario_timing [''A'', ''BB'']
     \<lparr>displayText = ''A'', phraseIndex = Num 0, isDeleting = False\<rparr>"
proof -
  have "step scenario_timing [''A'', ''BB''] initial_state =
      Inr (10, \<lparr>displayText = ''A'', phraseIndex = Num 0, isDeleting = False\<rparr>)"
    by (simp add: engine_defs scenario_timing_def)
  from reachable_step [OF reachable_initial this] show ?thesis .
qed

lemma reach_A_deleting:
  "reachable scenario_timing [''A'', ''BB'']
     \<lparr>displayText = ''A'', phraseIndex = Num 0, isDeleting = True\<rparr>"
proof -
  have "step scenario_timing [''A'', ''BB'']
      \<lparr>displayText = ''A'', phraseIndex = Num 0, isDeleting = False\<rparr> =
      Inr (100, \<lparr>displayText = ''A'', phraseIndex = Num 0, isDeleting = True\<rparr>)"
    by (simp add: engine_defs scenario_timing_def)
  from reachable_step [OF reach_A this] show ?thesis .
qed

lemma reach_empty_deleting:
  "reachable scenario_timing [''A'', ''BB'']
     \<lparr>displayText = [], phraseIndex = Num 0, isDeleting = True\<rparr>"
proof -
  have "step scenario_timing [''A'', ''BB'']
      \<lparr>displayText = ''A'', phraseIndex = Num 0, isDeleting = True\<rparr> =
      Inr (5, \<lparr>displayText = [], phraseIndex = Num 0, isDeleting = True\<rparr>)"
    by (simp add: engine_defs scenario_timing_def)
  from reachable_step [OF reach_A_deleting this] show ?thesis .
qed

lemma proper_prefix_shorter:
  assumes "prefix d p" and "d \<noteq> p"
  shows "length d < length p"
  using assms by (auto simp: prefix_def)

lemma sample_more_fuel:
  "sample cfg phrases fuel deadline now st = Some r \<Longrightarrow>
   sample cfg phrases (fuel + k) deadline now st = Some r"
proof (induction fuel arbitrary: now st)
  case 0
  then show ?case by simp
next
  case (Suc fuel)
  then show ?case
    by (auto simp: Let_def split: option.splits if_splits sum.splits prod.splits)
qed

subsection \<open>The display is a prefix of the active phrase\<close>

text \<open>
  Claim C1. For a non-empty phrase list, in every state the engine reaches from its
  initial state the phrase index is inside the list and the displayed string is a prefix
  of the phrase at that index, so its length lies between 0 and the length of that
  phrase. The invariant \<open>typing_inv\<close> holds there, and every transition (typing step,
  pause to delete, delete step, phrase advance) from a state that satisfies it succeeds
  and leads to a state that satisfies it.
\<close>

theorem display_is_prefix_of_active_phrase:
  assumes "phrases \<noteq> []" and "reachable cfg phrases st"
  shows "(\<exists>i. phraseIndex st = Num i \<and> i < length phrases \<and>
            prefix (displayText st) (phrases ! i) \<and>
            length (displayText st) \<le> length (phrases ! i)) \<and>
         typing_inv phrases st \<and>
         (\<exists>d st'. step cfg phrases st = Inr (d, st') \<and> typing_inv phrases st') \<and>
         (\<forall>s. typing_inv phrases s \<longrightarrow>
            (\<exists>d s'. step cfg phrases s = Inr (d, s') \<and> typing_inv phrases s'))"
proof -
  have inv: "typing_inv phrases st" using assms by (rule reachable_inv)
  then have "\<exists>i. phraseIndex st = Num i \<and> i < length phrases \<and>
      prefix (displayText st) (phrases ! i) \<and>
      length (displayText st) \<le> length (phrases ! i)"
    by (simp only: typing_inv_explicit)
  moreover have "\<exists>d st'. step cfg phrases st = Inr (d, st') \<and> typing_inv phrases st'"
    using inv by (rule typing_inv_step)
  moreover have "\<forall>s. typing_inv phrases s \<longrightarrow>
      (\<exists>d s'. step cfg phrases s = Inr (d, s') \<and> typing_inv phrases s')"
    by (blast intro: typing_inv_step)
  ultimately show ?thesis using inv by blast
qed

theorem display_is_prefix_of_active_phrase_witness:
  "[''A'', ''BB''] \<noteq> [] \<and>
   reachable scenario_timing [''A'', ''BB'']
     \<lparr>displayText = ''A'', phraseIndex = Num 0, isDeleting = False\<rparr> \<and>
   typing_inv [''A'', ''BB'']
     \<lparr>displayText = ''A'', phraseIndex = Num 0, isDeleting = False\<rparr> \<and>
   prefix ''A'' ([''A'', ''BB''] ! 0)"
proof -
  have ne: "[''A'', ''BB''] \<noteq> []" by simp
  from display_is_prefix_of_active_phrase [OF ne reach_A] ne reach_A
  show ?thesis by simp
qed

subsection \<open>The scenario of the specification\<close>

lemma trace_with_seven_transitions:
  "sample scenario_timing [''A'', ''BB''] 7 0 0 initial_state =
     Some (Inr \<lparr>displayText = [], phraseIndex = Num 0, isDeleting = False\<rparr>) \<and>
   sample scenario_timing [''A'', ''BB''] 7 10 0 initial_state =
     Some (Inr \<lparr>displayText = ''A'', phraseIndex = Num 0, isDeleting = False\<rparr>) \<and>
   (\<forall>t. 10 \<le> t \<and> t \<le> 110 \<longrightarrow>
      (\<exists>st. sample scenario_timing [''A'', ''BB''] 7 t 0 initial_state = Some (Inr st) \<and>
         displayText st = ''A'' \<and> phraseIndex st = Num 0)) \<and>
   sample scenario_timing [''A'', ''BB''] 7 115 0 initial_state =
     Some (Inr \<lparr>displayText = [], phraseIndex = Num 1, isDeleting = False\<rparr>) \<and>
   sample scenario_timing [''A'', ''BB''] 7 125 0 initial_state =
     Some (Inr \<lparr>displayText = ''B'', phraseIndex = Num 1, isDeleting = False\<rparr>) \<and>
   sample scenario_timing [''A'', ''BB''] 7 135 0 initial_state =
     Some (Inr \<lparr>displayText = ''BB'', phraseIndex = Num 1, isDeleting = False\<rparr>)"
  by (simp add: eval_nat_numeral useTypingEffect_effect_def initial_state_def Let_def
      slice0_def scenario_timing_def)

text \<open>
  Claim C3. With phrases \<open>["A", "BB"]\<close>, typing speed 10, deleting speed 5 and pause
  100, started at time 0 with the empty display: the display is empty at time 0; at time
  10 it is \<open>"A"\<close>; it is \<open>"A"\<close> at every time from 10 to 110; at time 115 it is empty
  and the phrase index is 1; at time 125 it is \<open>"B"\<close>; at time 135 it is \<open>"BB"\<close>.
  Seven transitions reach every one of these instants, and more transitions allowed
  (\<open>7 + k\<close>) give the same samples.
\<close>

theorem scenario_trace:
  "sample scenario_timing [''A'', ''BB''] (7 + k) 0 0 initial_state =
     Some (Inr \<lparr>displayText = [], phraseIndex = Num 0, isDeleting = False\<rparr>) \<and>
   sample scenario_timing [''A'', ''BB''] (7 + k) 10 0 initial_state =
     Some (Inr \<lparr>displayText = ''A'', phraseIndex = Num 0, isDeleting = False\<rparr>) \<and>
   (\<forall>t. 10 \<le> t \<and> t \<le> 110 \<longrightarrow>
      (\<exists>st. sample scenario_timing [''A'', ''BB''] (7 + k) t 0 initial_state =
           Some (Inr st) \<and>
         displayText st = ''A'' \<and> phraseIndex st = Num 0)) \<and>
   sample scenario_timing [''A'', ''BB''] (7 + k) 115 0 initial_state =
     Some (Inr \<lparr>displayText = [], phraseIndex = Num 1, isDeleting = False\<rparr>) \<and>
   sample scenario_timing [''A'', ''BB''] (7 + k) 125 0 initial_state =
     Some (Inr \<lparr>displayText = ''B'', phraseIndex = Num 1, isDeleting = False\<rparr>) \<and>
   sample scenario_timing [''A'', ''BB''] (7 + k) 135 0 initial_state =
     Some (Inr \<lparr>displayText = ''BB'', phraseIndex = Num 1, isDeleting = False\<rparr>)"
  using trace_with_seven_transitions by (blast intro: sample_more_fuel)

theorem scenario_trace_witness:
  "(10::nat) \<le> 50 \<and> (50::nat) \<le> 110 \<and>
   (\<exists>st. sample scenario_timing [''A'', ''BB''] (7 + 0) 50 0 initial_state = Some (Inr st) \<and>
      displayText st = ''A'' \<and> phraseIndex st = Num 0)"
  using scenario_trace [of 0] by simp

subsection \<open>The phrase index after whole cycles\<close>

text \<open>
  Claim C5. For a non-empty phrase list and every \<open>N\<close>, \<open>N\<close> full cycles from the
  initial state end (they do end) with the empty display, not deleting, at phrase index
  \<open>N mod length phrases\<close>. The transition taken when the display is empty while
  deleting replaces the index \<open>i\<close> by \<open>(i + 1) mod length phrases\<close>, and every other
  transition leaves the index as it is.
\<close>

theorem phrase_index_after_cycles:
  assumes "phrases \<noteq> []"
  shows "cycles cfg phrases N initial_state =
           Inr \<lparr>displayText = [], phraseIndex = Num (N mod length phrases),
                isDeleting = False\<rparr> \<and>
         (\<forall>st i. isDeleting st \<and> displayText st = [] \<and> phraseIndex st = Num i \<longrightarrow>
            step cfg phrases st =
              Inr (0, st\<lparr>isDeleting := False,
                         phraseIndex := Num ((i + 1) mod length phrases)\<rparr>)) \<and>
         (\<forall>st d st'. step cfg phrases st = Inr (d, st') \<and>
              \<not> (isDeleting st \<and> displayText st = []) \<longrightarrow>
            phraseIndex st' = phraseIndex st)"
proof -
  from assms have "0 < length phrases" by simp
  from cycles_from [OF this, of cfg N]
  have "cycles cfg phrases N initial_state =
      Inr \<lparr>displayText = [], phraseIndex = Num (N mod length phrases), isDeleting = False\<rparr>"
    by (simp add: initial_state_def)
  moreover have "\<forall>st i. isDeleting st \<and> displayText st = [] \<and> phraseIndex st = Num i \<longrightarrow>
      step cfg phrases st =
        Inr (0, st\<lparr>isDeleting := False, phraseIndex := Num ((i + 1) mod length phrases)\<rparr>)"
    using assms by (simp add: step_advance)
  moreover have "\<forall>st d st'. step cfg phrases st = Inr (d, st') \<and>
      \<not> (isDeleting st \<and> displayText st = []) \<longrightarrow> phraseIndex st' = phraseIndex st"
    by (blast intro: step_keeps_index)
  ultimately show ?thesis by blast
qed

theorem phrase_index_after_cycles_witness:
  "[''A'', ''BB''] \<noteq> [] \<and>
   cycles scenario_timing [''A'', ''BB''] 3 initial_state =
     Inr \<lparr>displayText = [], phraseIndex = Num 1, isDeleting = False\<rparr>"
proof -
  have ne: "[''A'', ''BB''] \<noteq> []" by simp
  have m: "(3::nat) mod Suc (Suc 0) = Suc 0" by presburger
  from phrase_index_after_cycles [OF ne, of scenario_timing 3]
  show ?thesis by (simp add: m)
qed

subsection \<open>One character at a time, and no skipped state\<close>

text \<open>
  Claim C6. For a non-empty phrase list, in every reachable state the next transition
  exists, and: a step of the typing phase (not deleting, display not yet the whole
  phrase) makes the display exactly one longer and stays in that phase; a step of the
  deleting phase (deleting, display not yet empty) makes the display exactly one shorter
  and stays in that phase; the engine goes from not deleting to deleting only when the
  display is the whole current phrase, and from deleting to not deleting only when the
  display is the empty string, the display being unchanged by either.
\<close>

theorem steps_change_length_by_one:
  assumes "phrases \<noteq> []" and "reachable cfg phrases st"
  shows "\<exists>i d st'. phraseIndex st = Num i \<and> i < length phrases \<and>
           step cfg phrases st = Inr (d, st') \<and>
           (\<not> isDeleting st \<and> displayText st \<noteq> phrases ! i \<longrightarrow>
              length (displayText st') = length (displayText st) + 1 \<and>
              \<not> isDeleting st' \<and> phraseIndex st' = phraseIndex st) \<and>
           (isDeleting st \<and> displayText st \<noteq> [] \<longrightarrow>
              length (displayText st') + 1 = length (displayText st) \<and>
              isDeleting st' \<and> phraseIndex st' = phraseIndex st) \<and>
           (\<not> isDeleting st \<and> isDeleting st' \<longrightarrow>
              displayText st = phrases ! i \<and> displayText st' = displayText st) \<and>
           (isDeleting st \<and> \<not> isDeleting st' \<longrightarrow>
              displayText st = [] \<and> displayText st' = [])"
proof -
  have "typing_inv phrases st" using assms by (rule reachable_inv)
  then obtain i where i: "phraseIndex st = Num i" "i < length phrases"
    and pre: "prefix (displayText st) (phrases ! i)"
    and le: "length (displayText st) \<le> length (phrases ! i)"
    by (auto simp: typing_inv_explicit)
  let ?p = "phrases ! i" and ?d = "displayText st"
  have p: "phrase_at phrases (phraseIndex st) = Some ?p" using i by simp
  have grow: "length (take (length ?d + 1) ?p) = length ?d + 1" if "?d \<noteq> ?p"
    using proper_prefix_shorter [OF pre that] by simp
  have shrink: "length (take (length ?d - 1) ?p) + 1 = length ?d" if "?d \<noteq> []"
  proof -
    from that have "0 < length ?d" by simp
    with le show ?thesis by simp
  qed
  consider (pause) "\<not> isDeleting st" "?d = ?p"
    | (advance) "isDeleting st" "?d = []"
    | (delete) "isDeleting st" "?d \<noteq> []"
    | (type) "\<not> isDeleting st" "?d \<noteq> ?p"
    by blast
  then show ?thesis
  proof cases
    case pause
    then show ?thesis using i by (simp add: step_cases [OF p])
  next
    case advance
    then show ?thesis using i by (simp add: step_cases [OF p])
  next
    case delete
    then show ?thesis using i shrink
      by (simp add: step_cases [OF p] del: length_take)
  next
    case type
    then show ?thesis using i grow
      by (simp add: step_cases [OF p] del: length_take)
  qed
qed

theorem steps_change_length_by_one_witness:
  "[''A'', ''BB''] \<noteq> [] \<and>
   reachable scenario_timing [''A'', ''BB'']
     \<lparr>displayText = ''A'', phraseIndex = Num 0, isDeleting = True\<rparr> \<and>
   (\<exists>d st'. step scenario_timing [''A'', ''BB'']
        \<lparr>displayText = ''A'', phraseIndex = Num 0, isDeleting = True\<rparr> = Inr (d, st') \<and>
      length (displayText st') + 1 = length ''A'' \<and> isDeleting st')"
proof -
  have ne: "[''A'', ''BB''] \<noteq> []" by simp
  from steps_change_length_by_one [OF ne reach_A_deleting] ne reach_A_deleting
  show ?thesis by auto
qed

subsection \<open>Timers\<close>

text \<open>
  Claim C9, as the code has it. A run of the effect schedules at most one timer. It
  schedules none exactly when the display is empty while deleting: there the effect itself
  clears the deleting flag and advances the phrase index, and the next run follows with
  no delay. In every other state (typing, pausing, deleting a non-empty display) it
  schedules exactly one timer and changes no state itself; the transition is then what
  the timer's closure does.
\<close>

theorem effect_schedules_at_most_one_timer:
  "(timer (useTypingEffect_effect cfg phrases st) = None) =
     (isDeleting st \<and> displayText st = []) \<and>
   synced (useTypingEffect_effect cfg phrases st) =
     (if isDeleting st \<and> displayText st = []
      then st\<lparr>isDeleting := False, phraseIndex := next_index phrases (phraseIndex st)\<rparr>
      else st) \<and>
   step cfg phrases st =
     (case timer (useTypingEffect_effect cfg phrases st) of
        None \<Rightarrow> Inr (0, synced (useTypingEffect_effect cfg phrases st))
      | Some (delay, cb) \<Rightarrow> map_sum id (Pair delay) (fire cb st))"
  by (auto simp: step_def useTypingEffect_effect_def Let_def split: sum.splits)

text \<open>
  Claim C9 as stated fails: after typing, pausing on and deleting \<open>"A"\<close> the engine is
  deleting with the empty display, and the transition from there to typing the next phrase
  schedules no timer.
\<close>

theorem advance_schedules_no_timer:
  "reachable scenario_timing [''A'', ''BB'']
     \<lparr>displayText = [], phraseIndex = Num 0, isDeleting = True\<rparr> \<and>
   timer (useTypingEffect_effect scenario_timing [''A'', ''BB'']
     \<lparr>displayText = [], phraseIndex = Num 0, isDeleting = True\<rparr>) = None \<and>
   step scenario_timing [''A'', ''BB'']
     \<lparr>displayText = [], phraseIndex = Num 0, isDeleting = True\<rparr> =
     Inr (0, \<lparr>displayText = [], phraseIndex = Num 1, isDeleting = False\<rparr>)"
  using reach_empty_deleting by (simp add: engine_defs)

subsection \<open>The empty phrase list\<close>

text \<open>
  Claim C10. With the empty phrase list the first run of the effect reads
  \<open>phrases[0]\<close>, which is undefined, and schedules the typing timer; its closure calls
  \<open>slice\<close> on that undefined value, so the first transition is a \<open>TypeError\<close>
  and no display string is produced.
\<close>

theorem empty_phrase_list_faults:
  "phrase_at ([] :: 'c list list) (phraseIndex (initial_state :: 'c typing_state)) = None \<and>
   timer (useTypingEffect_effect cfg ([] :: 'c list list) initial_state) =
     Some (typingSpeed cfg, SetDisplayTextSlice None 1) \<and>
   fire (SetDisplayTextSlice None 1) (initial_state :: 'c typing_state) = Inl TypeError \<and>
   step cfg ([] :: 'c list list) initial_state = Inl TypeError"
  by (simp add: engine_defs)

section \<open>Properties of the navigation controller\<close>

lemma find_section_append:
  "i \<le> length ids \<Longrightarrow>
   find_section doc (ids @ extra) scrollPos i = find_section doc ids scrollPos i"
  by (induction i) (auto simp: nth_append split: option.splits)

lemma latest_passed_alt:
  "latest_passed doc ids scrollPos =
     (if filter (passed doc scrollPos) ids = [] then None
      else Some (last (filter (passed doc scrollPos) ids)))"
  by (simp add: latest_passed_def split: list.splits)

lemma find_section_latest_passed:
  "find_section doc ids scrollPos (length ids) = latest_passed doc ids scrollPos"
proof (induction ids rule: rev_induct)
  case Nil
  show ?case by (simp add: latest_passed_def)
next
  case (snoc x xs)
  show ?case
  proof (cases "passed doc scrollPos x")
    case True
    then have "latest_passed doc (xs @ [x]) scrollPos = Some x"
      by (simp add: latest_passed_alt)
    moreover from True have "find_section doc (xs @ [x]) scrollPos (length (xs @ [x])) = Some x"
      by (auto simp: passed_def split: option.splits)
    ultimately show ?thesis by simp
  next
    case False
    then have "find_section doc (xs @ [x]) scrollPos (length (xs @ [x])) =
        find_section doc (xs @ [x]) scrollPos (length xs)"
      by (auto simp: passed_def split: option.splits)
    also have "\<dots> = find_section doc xs scrollPos (length xs)"
      by (rule find_section_append) simp
    also have "\<dots> = latest_passed doc xs scrollPos" by (rule snoc.IH)
    also have "\<dots> = latest_passed doc (xs @ [x]) scrollPos"
      using False by (simp add: latest_passed_alt)
    finally show ?thesis .
  qed
qed

lemma example_page_active:
  "find_section example_page sectionIds 930 (length sectionIds) = Some ''about''"
  by (simp add: sectionIds_def NAV_LINKS_def example_page_def eval_nat_numeral)

lemma example_page_four:
  "find_section example_page [''home'', ''about'', ''skills'', ''education''] 930
     (length [''home'', ''about'', ''skills'', ''education'']) = Some ''about''"
  by (simp add: example_page_def)

lemma example_page_latest: "latest_passed example_page sectionIds 930 = Some ''about''"
  using example_page_active by (simp only: find_section_latest_passed)

text \<open>
  Claim C2, as the code has it. On every scroll event the handler sets the active section
  to the section latest in document order among those present in the page whose top
  offset is at most the scroll offset plus 80, which is what the loop from the last
  identifier to the first finds; when there is no such section the active section stays as
  it was. With top offsets 0, 800, 1600 and 2400 for home, about, skills and education and
  scroll offset 850 the active section becomes about. On the initial mount the handler is
  only registered, and the active section is home whatever the scroll offset is.
\<close>

theorem handleScroll_active_section:
  "handleScroll ids doc scrollY st =
     st\<lparr>scrolled := 50 < scrollY,
        activeSection :=
          (case latest_passed doc ids (scrollY + 80) of
             None \<Rightarrow> activeSection st
           | Some sid \<Rightarrow> sid)\<rparr> \<and>
   find_section doc ids (scrollY + 80) (length ids) = latest_passed doc ids (scrollY + 80) \<and>
   activeSection (handleScroll sectionIds example_page 850 st) = ''about'' \<and>
   activeSection
     (handleScroll [''home'', ''about'', ''skills'', ''education''] example_page 850 st) =
     ''about'' \<and>
   activeSection (Navbar_mount doc scrollY) = ''home''"
  using example_page_active example_page_four
  by (simp add: handleScroll_def Let_def find_section_latest_passed [symmetric] Navbar_mount_def
      split: option.splits)

text \<open>
  Claim C2 as stated fails on the initial mount: mounted on the example page at scroll
  offset 850, where the rule selects about, the active section is home.
\<close>

theorem mount_leaves_home_active:
  "latest_passed example_page sectionIds (850 + 80) = Some ''about'' \<and>
   activeSection (Navbar_mount example_page 850) = ''home'' \<and>
   activeSection (Navbar_mount example_page 850) \<noteq> ''about''"
  using example_page_latest by (simp add: Navbar_mount_def)

section \<open>Properties of the visibility tracker\<close>

lemma notify_all_append:
  "notify_all (xs @ ys) st =
     (case notify_all xs st of Inl e \<Rightarrow> Inl e | Inr st' \<Rightarrow> notify_all ys st')"
  by (induction xs arbitrary: st) (auto split: sum.splits)

lemma notify_all_disconnected: "\<not> observing st \<Longrightarrow> notify_all ns st = Inr st"
  by (induction ns) (auto simp: notify_def)

lemma notify_keeps_visible:
  "isVisible st \<Longrightarrow> notify entries st = Inr st' \<Longrightarrow> isVisible st'"
  by (cases entries) (auto simp: notify_def split: if_splits)

lemma notify_all_keeps_visible:
  "isVisible st \<Longrightarrow> notify_all ns st = Inr st' \<Longrightarrow> isVisible st'"
proof (induction ns arbitrary: st)
  case Nil
  then show ?case by simp
next
  case (Cons n ns)
  then show ?case
    by (auto split: sum.splits dest: notify_keeps_visible)
qed

lemma notify_all_not_intersecting:
  "\<forall>m\<in>set pre. m \<noteq> [] \<and> \<not> isIntersecting (hd m) \<Longrightarrow> notify_all pre st = Inr st"
proof (induction pre)
  case Nil
  show ?case by simp
next
  case (Cons m pre)
  then have "notify m st = Inr st" by (cases m) (auto simp: notify_def)
  with Cons show ?case by simp
qed

text \<open>
  Claim C4 as stated fails: the callback reads only the first entry of a notification. A
  notification that carries a non-intersecting entry followed by an intersecting one
  contains an intersection that meets the threshold, and leaves the signal false and the
  observer connected.
\<close>

theorem later_entry_is_ignored:
  "isIntersecting \<lparr>isIntersecting = True\<rparr> \<and>
   \<lparr>isIntersecting = True\<rparr> \<in> set [\<lparr>isIntersecting = False\<rparr>, \<lparr>isIntersecting = True\<rparr>] \<and>
   notify [\<lparr>isIntersecting = False\<rparr>, \<lparr>isIntersecting = True\<rparr>] (useScrollAnimation_mount True) =
     Inr \<lparr>isVisible = False, observing = True\<rparr> \<and>
   notify_all [[\<lparr>isIntersecting = False\<rparr>, \<lparr>isIntersecting = True\<rparr>]]
     (useScrollAnimation_mount True) = Inr \<lparr>isVisible = False, observing = True\<rparr>"
  by (simp add: notify_def useScrollAnimation_mount_def)

text \<open>
  Claim C4, as the code has it. The signal \<open>isVisible\<close> starts false. Notifications
  whose first entry does not intersect leave the tracker as it was, whatever their other
  entries are; the first notification whose first entry intersects (the browser sets that
  flag from the observer's threshold) makes the signal true and disconnects the observer,
  and the signal is still true, and the observer disconnected, after any further
  notifications. A disconnected observer changes nothing any more, so the signal is set at
  most once; and in any state a signal that is true stays true. Tearing the tracker down
  disconnects the observer and leaves the signal as it is.
\<close>

theorem visibility_is_monotonic:
  "isVisible (useScrollAnimation_mount attached) = False \<and>
   ((\<forall>m\<in>set pre. m \<noteq> [] \<and> \<not> isIntersecting (hd m)) \<and> isIntersecting e \<longrightarrow>
      notify_all pre (useScrollAnimation_mount True) = Inr (useScrollAnimation_mount True) \<and>
      notify_all (pre @ [e # es]) (useScrollAnimation_mount True) =
        Inr \<lparr>isVisible = True, observing = False\<rparr> \<and>
      notify_all (pre @ [e # es] @ post) (useScrollAnimation_mount True) =
        Inr \<lparr>isVisible = True, observing = False\<rparr>) \<and>
   (\<not> observing st \<longrightarrow> notify_all ns st = Inr st) \<and>
   (isVisible st \<and> notify_all ns st = Inr st' \<longrightarrow> isVisible st') \<and>
   isVisible (useScrollAnimation_cleanup st) = isVisible st"
proof -
  have fire: "notify (e # es) (useScrollAnimation_mount True) =
      Inr \<lparr>isVisible = True, observing = False\<rparr>" if "isIntersecting e"
    using that by (simp add: notify_def useScrollAnimation_mount_def)
  have "notify_all (pre @ [e # es] @ post) (useScrollAnimation_mount True) =
      Inr \<lparr>isVisible = True, observing = False\<rparr> \<and>
    notify_all (pre @ [e # es]) (useScrollAnimation_mount True) =
      Inr \<lparr>isVisible = True, observing = False\<rparr> \<and>
    notify_all pre (useScrollAnimation_mount True) = Inr (useScrollAnimation_mount True)"
    if "\<forall>m\<in>set pre. m \<noteq> [] \<and> \<not> isIntersecting (hd m)" and "isIntersecting e"
    using notify_all_not_intersecting [OF that(1)] fire [OF that(2)]
    by (simp add: notify_all_append notify_all_disconnected)
  then show ?thesis
    by (auto simp: useScrollAnimation_mount_def useScrollAnimation_cleanup_def
        notify_all_disconnected dest: notify_all_keeps_visible)
qed

theorem visibility_is_monotonic_witness:
  "[\<lparr>isIntersecting = False\<rparr>] \<noteq> [] \<and>
   \<not> isIntersecting (hd [\<lparr>isIntersecting = False\<rparr>]) \<and>
   isIntersecting \<lparr>isIntersecting = True\<rparr> \<and>
   notify_all ([[\<lparr>isIntersecting = False\<rparr>]] @ [\<lparr>isIntersecting = True\<rparr> # []] @
       [[\<lparr>isIntersecting = False\<rparr>], []])
     (useScrollAnimation_mount True) = Inr \<lparr>isVisible = True, observing = False\<rparr> \<and>
   \<not> observing \<lparr>isVisible = True, observing = False\<rparr> \<and>
   isVisible \<lparr>isVisible = True, observing = False\<rparr>"
  using visibility_is_monotonic [of True "[[\<lparr>isIntersecting = False\<rparr>]]"
      "\<lparr>isIntersecting = True\<rparr>" "[]" "[[\<lparr>isIntersecting = False\<rparr>], []]"
      "\<lparr>isVisible = True, observing = False\<rparr>" "[]" "\<lparr>isVisible = True, observing = False\<rparr>"]
  by simp

section \<open>Properties of the progress indicators\<close>


lemmas bar_defs = AnimatedProgressBar_mount_def AnimatedProgressBar_render_def
  AnimatedProgressBar_effect_def elapse_def




text \<open>
  Claim C8 as stated fails: the target 150 is not rejected. The bar's value becomes 150
  and the ring's stroke offset becomes negative.
\<close>

theorem out_of_range_target_is_animated:
  "(100::int) < 150 \<and>
   width (elapse 200 (AnimatedProgressBar_render True 150 (AnimatedProgressBar_mount 150))) = 150 \<and>
   strokeDashoffset True 150 < 0"
  by (simp add: bar_defs strokeDashoffset_def circumference_def)

text \<open>
  Claim C8, as the code has it. No target is checked, clamped or rejected: for every
  target, in range or not, the bar's current value becomes that target as given. The
  targets that the page passes to its bars and rings all lie between 0 and 100, and for the
  rings' targets the stroke offset lies between 0 and the circumference.
\<close>

theorem targets_are_not_checked:
  "width (elapse 200 (AnimatedProgressBar_render True v (AnimatedProgressBar_mount v))) = v \<and>
   (\<forall>t\<in>set (bar_targets @ languagesData_values). 0 \<le> t \<and> t \<le> 100) \<and>
   (\<forall>t\<in>set languagesData_values.
      0 \<le> strokeDashoffset True (real_of_int t) \<and>
      strokeDashoffset True (real_of_int t) \<le> circumference)"
  by (simp add: bar_defs bar_targets_def languagesData_values_def strokeDashoffset_def
      circumference_def)

theorem targets_are_not_checked_witness:
  "(90::int) \<in> set (bar_targets @ languagesData_values) \<and> (0::int) \<le> 90 \<and> (90::int) \<le> 100 \<and>
   (90::int) \<in> set languagesData_values \<and>
   0 \<le> strokeDashoffset True (real_of_int 90) \<and>
   strokeDashoffset True (real_of_int 90) \<le> circumference"
  using targets_are_not_checked [of 0] by (simp add: bar_targets_def languagesData_values_def)

end
